theory Spec2Isabelle
  imports Main
begin

section \<open>Data model of src/src/App.tsx\<close>

text \<open>
  The simulator is one React component over two module-level constants,
  \<open>INITIAL_MEMORY\<close> (the seed table) and \<open>SCENARIO\<close> (the script). A memory cell
  is a JavaScript object; arrays hold references to such objects, and the spread
  \<open>[...memory]\<close> copies the references, not the objects. The claims about memory depend
  on that sharing, so cells live in an explicit store and arrays are lists of references.

  Texts that are not ASCII (the \<open>description\<close> of a cell) are kept as lists of UTF-16
  code units. The \<open>title\<close> and \<open>message\<close> of a step are narration that no handler and
  no predicate reads; they are left out of the record.
\<close>

datatype cell_type = Instruction | Data | Empty

record MemoryCell =
  address :: nat
  content :: string
  type :: cell_type
  description :: "nat list option"

datatype phase = FETCH | DECODE | EXECUTE | IDLE

record busTransfer =
  bus_from :: string
  bus_to :: string
  bus_value :: string

record memoryUpdate =
  upd_address :: nat
  upd_value :: string

record Step =
  step_id :: nat
  phase :: phase
  activeComponents :: "string list"
  busActive :: "busTransfer option"
  pc :: "int option"
  ir :: "string option"
  acc :: "int option"
  mar :: "int option"
  mdr :: "string option"
  aluOperation :: "string option"
  memoryUpdates :: "memoryUpdate list option"

type_synonym ref = nat

type_synonym store = "ref \<Rightarrow> MemoryCell"

subsection \<open>The seed table\<close>

definition mkCell :: "nat \<Rightarrow> string \<Rightarrow> cell_type \<Rightarrow> nat list option \<Rightarrow> MemoryCell" where
  "mkCell a c t d = \<lparr>address = a, content = c, type = t, description = d\<rparr>"

text \<open>The eight cell objects of \<open>INITIAL_MEMORY\<close>, in the order of the array literal.\<close>

definition INITIAL_CELLS :: "MemoryCell list" where
  "INITIAL_CELLS =
    [mkCell 0 ''LOAD 10'' Instruction (Some [12487, 12540, 12479, 35501, 36796]),
     mkCell 1 ''ADD 11'' Instruction (Some [21152, 31639]),
     mkCell 2 ''STORE 12'' Instruction (Some [20445, 23384]),
     mkCell 3 ''HALT'' Instruction (Some [32066, 20102]),
     mkCell 4 ''0000'' Empty None,
     mkCell 10 ''3'' Data (Some [12487, 12540, 12479, 65]),
     mkCell 11 ''5'' Data (Some [12487, 12540, 12479, 66]),
     mkCell 12 ''0'' Data (Some [32080, 26524, 26684, 32013, 29992])]"

text \<open>
  The array \<open>INITIAL_MEMORY\<close> itself: references \<open>0..7\<close> to the eight objects. The array
  is never written to; only the objects it points to can change.
\<close>

definition INITIAL_MEMORY :: "ref list" where
  "INITIAL_MEMORY = [0, 1, 2, 3, 4, 5, 6, 7]"

text \<open>
  The store when the module has been loaded: reference \<open>r < 8\<close> holds the \<open>r\<close>-th cell
  as authored. No other cell object is ever allocated by the program, so what the
  store holds elsewhere is never read through \<open>memory\<close>.
\<close>

definition INITIAL_STORE :: store where
  "INITIAL_STORE r =
     (if r < length INITIAL_CELLS then INITIAL_CELLS ! r else mkCell 0 [] Empty None)"

subsection \<open>The script\<close>

definition mkStep ::
  "nat \<Rightarrow> phase \<Rightarrow> string list \<Rightarrow> busTransfer option \<Rightarrow> int \<Rightarrow> int \<Rightarrow> string \<Rightarrow> Step" where
  "mkStep i ph comps bus p a r =
     \<lparr>step_id = i, phase = ph, activeComponents = comps, busActive = bus,
      pc = Some p, ir = Some r, acc = Some a, mar = None, mdr = None,
      aluOperation = None, memoryUpdates = None\<rparr>"

definition mkBus :: "string \<Rightarrow> string \<Rightarrow> string \<Rightarrow> busTransfer option" where
  "mkBus f t v = Some \<lparr>bus_from = f, bus_to = t, bus_value = v\<rparr>"

definition SCENARIO :: "Step list" where
  "SCENARIO =
    [mkStep 0 IDLE [] None 0 0 '''',
     mkStep 1 FETCH [''PC'', ''AddressBus'', ''Memory''] (mkBus ''PC'' ''Memory'' ''0'') 0 0 '''',
     mkStep 2 FETCH [''Memory'', ''DataBus'', ''IR''] (mkBus ''Memory'' ''IR'' ''LOAD 10'') 0 0 ''LOAD 10'',
     mkStep 3 FETCH [''PC''] None 1 0 ''LOAD 10'',
     mkStep 4 DECODE [''CU'', ''IR''] None 1 0 ''LOAD 10'',
     mkStep 5 EXECUTE [''CU'', ''AddressBus'', ''Memory''] (mkBus ''CU'' ''Memory'' ''10'') 1 0 ''LOAD 10'',
     mkStep 6 EXECUTE [''Memory'', ''DataBus'', ''ACC''] (mkBus ''Memory'' ''ACC'' ''3'') 1 3 ''LOAD 10'',
     mkStep 7 FETCH [''PC'', ''AddressBus'', ''Memory''] (mkBus ''PC'' ''Memory'' ''1'') 1 3 '''',
     mkStep 8 FETCH [''Memory'', ''DataBus'', ''IR''] (mkBus ''Memory'' ''IR'' ''ADD 11'') 1 3 ''ADD 11'',
     mkStep 9 FETCH [''PC''] None 2 3 ''ADD 11'',
     mkStep 10 DECODE [''CU'', ''IR'', ''ALU''] None 2 3 ''ADD 11'',
     mkStep 11 EXECUTE [''CU'', ''AddressBus'', ''Memory''] (mkBus ''CU'' ''Memory'' ''11'') 2 3 ''ADD 11'',
     (mkStep 12 EXECUTE [''Memory'', ''DataBus'', ''ALU''] (mkBus ''Memory'' ''ALU'' ''5'') 2 3 ''ADD 11'')
       \<lparr>aluOperation := Some ''3 + 5''\<rparr>,
     (mkStep 13 EXECUTE [''ALU'', ''ACC''] (mkBus ''ALU'' ''ACC'' ''8'') 2 8 ''ADD 11'')
       \<lparr>aluOperation := Some ''Done''\<rparr>,
     mkStep 14 FETCH [''PC'', ''AddressBus'', ''Memory''] (mkBus ''PC'' ''Memory'' ''2'') 2 8 '''',
     mkStep 15 FETCH [''Memory'', ''DataBus'', ''IR''] (mkBus ''Memory'' ''IR'' ''STORE 12'') 2 8 ''STORE 12'',
     mkStep 16 FETCH [''PC''] None 3 8 ''STORE 12'',
     mkStep 17 DECODE [''CU'', ''IR''] None 3 8 ''STORE 12'',
     (mkStep 18 EXECUTE [''ACC'', ''DataBus'', ''AddressBus'', ''Memory'']
         (mkBus ''ACC'' ''Memory'' ''8'') 3 8 ''STORE 12'')
       \<lparr>memoryUpdates := Some [\<lparr>upd_address = 12, upd_value = ''8''\<rparr>]\<rparr>,
     mkStep 19 IDLE [''Memory''] None 3 8 ''HALT'']"

text \<open>
  \<open>SCENARIO[i]\<close>: a JavaScript array read gives \<open>undefined\<close> outside the array, and
  reading a field of \<open>undefined\<close> throws a \<open>TypeError\<close>.
\<close>

datatype error = TypeError

definition SCENARIO_at :: "int \<Rightarrow> Step option" where
  "SCENARIO_at i =
     (if 0 \<le> i \<and> i < int (length SCENARIO) then Some (SCENARIO ! nat i) else None)"

section \<open>The component state and its handlers\<close>

text \<open>
  The three \<open>useState\<close> cells of \<open>CpuSimulator\<close>, together with the store of cell
  objects they point into. A handler runs on the state of the latest render and its
  setters take effect before the next handler runs.
\<close>

record sim_state =
  currentStepIndex :: int
  memory :: "ref list"
  isAnimating :: bool
  cell_store :: store

definition initial :: sim_state where
  "initial = \<lparr>currentStepIndex = 0, memory = INITIAL_MEMORY, isAnimating = False,
               cell_store = INITIAL_STORE\<rparr>"

text \<open>\<open>newMemory.find(m => m.address === update.address)\<close>: the first matching object.\<close>

definition find_cell :: "store \<Rightarrow> ref list \<Rightarrow> nat \<Rightarrow> ref option" where
  "find_cell h mem a = List.find (\<lambda>r. address (h r) = a) mem"

text \<open>
  The body of the \<open>forEach\<close>: \<open>if (cell) cell.content = update.value\<close> writes into the
  object that was found, wherever else that object is referenced from.
\<close>

definition apply_update :: "ref list \<Rightarrow> memoryUpdate \<Rightarrow> store \<Rightarrow> store" where
  "apply_update mem u h =
     (case find_cell h mem (upd_address u) of
        None \<Rightarrow> h
      | Some r \<Rightarrow> h(r := (h r)\<lparr>content := upd_value u\<rparr>))"

definition handleReset :: "sim_state \<Rightarrow> sim_state" where
  "handleReset s = s\<lparr>currentStepIndex := 0, memory := INITIAL_MEMORY, isAnimating := False\<rparr>"

definition handleNext :: "sim_state \<Rightarrow> error + sim_state" where
  "handleNext s =
     (if currentStepIndex s < int (length SCENARIO) - 1 then
        let nextIndex = currentStepIndex s + 1 in
        (case SCENARIO_at nextIndex of
           None \<Rightarrow> Inl TypeError
         | Some nextStep \<Rightarrow>
             let s1 = (case memoryUpdates nextStep of
                         None \<Rightarrow> s
                       | Some us \<Rightarrow>
                           s\<lparr>memory := memory s,
                             cell_store := fold (apply_update (memory s)) us (cell_store s)\<rparr>)
             in Inr (s1\<lparr>currentStepIndex := nextIndex, isAnimating := True\<rparr>))
      else Inr s)"

definition handlePrev :: "sim_state \<Rightarrow> sim_state" where
  "handlePrev s =
     (if currentStepIndex s > 0 then
        let s1 = s\<lparr>currentStepIndex := currentStepIndex s - 1\<rparr> in
        if currentStepIndex s \<le> 18 then s1\<lparr>memory := INITIAL_MEMORY\<rparr> else s1
      else s)"

text \<open>The callback that \<open>handleNext\<close> schedules with \<open>setTimeout\<close>.\<close>

definition animationTimeout :: "sim_state \<Rightarrow> sim_state" where
  "animationTimeout s = s\<lparr>isAnimating := False\<rparr>"

datatype event = Next | Prev | Reset | Timeout

fun dispatch :: "event \<Rightarrow> sim_state \<Rightarrow> error + sim_state" where
  "dispatch Next s = handleNext s"
| "dispatch Prev s = Inr (handlePrev s)"
| "dispatch Reset s = Inr (handleReset s)"
| "dispatch Timeout s = Inr (animationTimeout s)"

fun run :: "event list \<Rightarrow> sim_state \<Rightarrow> error + sim_state" where
  "run [] s = Inr s"
| "run (e # es) s = (case dispatch e s of Inl err \<Rightarrow> Inl err | Inr s' \<Rightarrow> run es s')"

text \<open>What a render shows: the objects behind \<open>memory\<close>, in array order.\<close>

definition cells :: "sim_state \<Rightarrow> MemoryCell list" where
  "cells s = map (cell_store s) (memory s)"

text \<open>The one write of the script: step 18 stores the accumulator at address 12.\<close>

definition store12 :: memoryUpdate where
  "store12 = \<lparr>upd_address = 12, upd_value = ''8''\<rparr>"

definition updates_of :: "Step \<Rightarrow> memoryUpdate list" where
  "updates_of st = (case memoryUpdates st of None \<Rightarrow> [] | Some us \<Rightarrow> us)"

text \<open>The states the component can be in: the first render, and what events make of it.\<close>

inductive reachable :: "sim_state \<Rightarrow> bool" where
  reachable_initial: "reachable initial"
| reachable_step: "reachable s \<Longrightarrow> dispatch e s = Inr s' \<Longrightarrow> reachable s'"

section \<open>What a render derives from the state\<close>

text \<open>\<open>const step = SCENARIO[currentStepIndex]\<close>.\<close>

definition current_step :: "sim_state \<Rightarrow> Step option" where
  "current_step s = SCENARIO_at (currentStepIndex s)"

text \<open>
  The memory as a mapping from address to cell: the cell that a lookup by address
  finds in the array, as the store has it now.
\<close>

definition map_of_store :: "ref list \<Rightarrow> store \<Rightarrow> nat \<rightharpoonup> MemoryCell" where
  "map_of_store mem h a = map_option h (find_cell h mem a)"

definition memory_map :: "sim_state \<Rightarrow> nat \<rightharpoonup> MemoryCell" where
  "memory_map s = map_of_store (memory s) (cell_store s)"

definition content_at :: "sim_state \<Rightarrow> nat \<Rightarrow> string option" where
  "content_at s a = map_option content (memory_map s a)"

text \<open>\<open>isActive(compName)\<close> is \<open>step.activeComponents.includes(compName)\<close>.\<close>

definition isActive :: "Step \<Rightarrow> string \<Rightarrow> bool" where
  "isActive step compName \<longleftrightarrow> compName \<in> set (activeComponents step)"

text \<open>
  \<open>String(cell.address)\<close> for an address that is a natural number: its decimal digits.
  This is what JavaScript prints for the integers below \<open>2^53\<close>, which include every
  address of the seed table; from \<open>2^53\<close> upward a JavaScript number is a rounded double
  and prints differently (\<open>String(1e21)\<close> is \<open>1e+21\<close>), so the model stands for the
  code on addresses below \<open>2^53\<close>. The results on highlighting below use of this
  function only that it never yields the text \<open>undefined\<close>, which holds of
  \<open>String\<close> on every number.
\<close>

fun String_nat :: "nat \<Rightarrow> string" where
  "String_nat n =
     (if n < 10 then [''0123456789'' ! n]
      else String_nat (n div 10) @ [''0123456789'' ! (n mod 10)])"

declare String_nat.simps [simp del]

text \<open>
  The two flags computed for each cell inside \<open>memory.map\<close>. With \<open>busActive\<close> null,
  \<open>step.busActive?.x\<close> is \<open>undefined\<close>, equal to no string, and
  \<open>String(step.busActive?.value)\<close> is the text \<open>undefined\<close>.
\<close>

definition isTarget :: "Step \<Rightarrow> MemoryCell \<Rightarrow> bool" where
  "isTarget step cell \<longleftrightarrow>
     isActive step ''Memory'' \<and>
     ((map_option bus_to (busActive step) = Some ''Memory'' \<and>
         map_option bus_value (busActive step) = Some (content cell)) \<or>
      (map_option bus_from (busActive step) = Some ''Memory'' \<and>
         map_option bus_value (busActive step) = Some (content cell)) \<or>
      (map_option bus_from (busActive step) = Some ''CU'' \<and>
         map_option bus_value (busActive step) = Some (String_nat (address cell))) \<or>
      (map_option bus_from (busActive step) = Some ''PC'' \<and>
         map_option bus_value (busActive step) = Some (String_nat (address cell))) \<or>
      (case memoryUpdates step of
         None \<Rightarrow> False
       | Some us \<Rightarrow> list_ex (\<lambda>u. upd_address u = address cell) us))"

definition isAddressed :: "Step \<Rightarrow> MemoryCell \<Rightarrow> bool" where
  "isAddressed step cell \<longleftrightarrow>
     isActive step ''AddressBus'' \<and>
     (case busActive step of None \<Rightarrow> ''undefined'' | Some b \<Rightarrow> bus_value b)
       = String_nat (address cell)"

text \<open>The cell is drawn highlighted when \<open>isAddressed || isTarget\<close>.\<close>

definition highlighted :: "Step \<Rightarrow> MemoryCell \<Rightarrow> bool" where
  "highlighted step cell \<longleftrightarrow> isAddressed step cell \<or> isTarget step cell"

section \<open>The specification's side\<close>

text \<open>
  The memory the specification describes at position \<open>p\<close>: the seed table as authored,
  with the \<open>memoryUpdates\<close> of the steps \<open>1..p\<close> written into it in step order, a later
  write to an address replacing an earlier one.
\<close>

definition store_write :: "memoryUpdate \<Rightarrow> MemoryCell list \<Rightarrow> MemoryCell list" where
  "store_write u cs =
     map (\<lambda>c. if address c = upd_address u then c\<lparr>content := upd_value u\<rparr> else c) cs"

definition replay :: "nat \<Rightarrow> MemoryCell list" where
  "replay p = fold store_write (concat (map updates_of (take p (tl SCENARIO)))) INITIAL_CELLS"

text \<open>
  An update as the specification words it for \<open>advance\<close>: the content of the cell at
  the address is overwritten, and an address with no cell is left alone.
\<close>

definition overwrite :: "memoryUpdate \<Rightarrow> (nat \<rightharpoonup> MemoryCell) \<Rightarrow> (nat \<rightharpoonup> MemoryCell)" where
  "overwrite u m =
     (case m (upd_address u) of
        None \<Rightarrow> m
      | Some c \<Rightarrow> m(upd_address u \<mapsto> c\<lparr>content := upd_value u\<rparr>))"

text \<open>
  The highlighting rule as the specification words it: an address match when the
  transfer comes from PC or CU or the address bus is active, a content match when
  Memory is an endpoint of the transfer, or an update of the step at the cell's address.
\<close>

definition spec_targeting :: "Step \<Rightarrow> MemoryCell \<Rightarrow> bool" where
  "spec_targeting step cell \<longleftrightarrow>
     (case busActive step of
        None \<Rightarrow> False
      | Some b \<Rightarrow>
          bus_value b = String_nat (address cell) \<and>
          (bus_from b = ''PC'' \<or> bus_from b = ''CU'' \<or> isActive step ''AddressBus'')) \<or>
     (case busActive step of
        None \<Rightarrow> False
      | Some b \<Rightarrow>
          (bus_from b = ''Memory'' \<or> bus_to b = ''Memory'') \<and> bus_value b = content cell) \<or>
     address cell \<in> upd_address ` set (updates_of step)"

text \<open>The store once that write has been made: the eighth object holds \<open>8\<close>.\<close>

definition stored :: store where
  "stored = INITIAL_STORE(7 := mkCell 12 ''8'' Data (Some [32080, 26524, 26684, 32013, 29992]))"

section \<open>Facts about the script and the handlers\<close>

lemma length_SCENARIO: "length SCENARIO = 20"
  by (simp add: SCENARIO_def)

lemma map_memoryUpdates_SCENARIO:
  "map memoryUpdates SCENARIO = replicate 18 None @ [Some [store12], None]"
  by (simp add: SCENARIO_def mkStep_def store12_def numeral_eq_Suc)

lemma memoryUpdates_nth:
  assumes "k < 20"
  shows "memoryUpdates (SCENARIO ! k) = (if k = 18 then Some [store12] else None)"
proof -
  have "memoryUpdates (SCENARIO ! k) = map memoryUpdates SCENARIO ! k"
    using assms by (simp add: length_SCENARIO)
  also have "\<dots> = (if k = 18 then Some [store12] else None)"
    using assms unfolding map_memoryUpdates_SCENARIO
    by (auto simp: nth_append nth_Cons')
  finally show ?thesis .
qed

lemma SCENARIO_at_in_range:
  "0 \<le> i \<Longrightarrow> i < 20 \<Longrightarrow> SCENARIO_at i = Some (SCENARIO ! nat i)"
  by (simp add: SCENARIO_at_def length_SCENARIO)

lemma SCENARIO_at_Some:
  "SCENARIO_at i = Some st \<Longrightarrow> 0 \<le> i \<and> i < 20 \<and> st = SCENARIO ! nat i"
  by (auto simp: SCENARIO_at_def length_SCENARIO split: if_splits)

lemma memoryUpdates_at:
  assumes "SCENARIO_at i = Some st"
  shows "memoryUpdates st = (if i = 18 then Some [store12] else None)"
proof -
  from assms have r: "0 \<le> i" "i < 20" and st: "st = SCENARIO ! nat i"
    using SCENARIO_at_Some by blast+
  have "nat i < 20" using r by simp
  from memoryUpdates_nth [OF this] show ?thesis
    using r st by auto
qed

lemma handleNext_plain:
  assumes "0 \<le> currentStepIndex s" "currentStepIndex s < 19" "currentStepIndex s \<noteq> 17"
  shows "handleNext s = Inr (s\<lparr>currentStepIndex := currentStepIndex s + 1, isAnimating := True\<rparr>)"
proof -
  let ?j = "currentStepIndex s + 1"
  have at: "SCENARIO_at ?j = Some (SCENARIO ! nat ?j)"
    using assms by (intro SCENARIO_at_in_range) auto
  have "memoryUpdates (SCENARIO ! nat ?j) = None"
    using memoryUpdates_at [OF at] assms by simp
  with at show ?thesis
    using assms by (simp add: handleNext_def length_SCENARIO Let_def)
qed

lemma handleNext_store:
  assumes "currentStepIndex s = 17"
  shows "handleNext s =
    Inr (s\<lparr>cell_store := apply_update (memory s) store12 (cell_store s),
           currentStepIndex := 18, isAnimating := True\<rparr>)"
proof -
  have at: "SCENARIO_at 18 = Some (SCENARIO ! nat 18)"
    by (intro SCENARIO_at_in_range) auto
  have "memoryUpdates (SCENARIO ! nat 18) = Some [store12]"
    using memoryUpdates_at [OF at] by simp
  with at show ?thesis
    using assms by (simp add: handleNext_def length_SCENARIO Let_def)
qed

lemma handleNext_last:
  "19 \<le> currentStepIndex s \<Longrightarrow> handleNext s = Inr s"
  by (simp add: handleNext_def length_SCENARIO)

lemma run_snoc:
  "run (es @ [e]) s = (case run es s of Inl err \<Rightarrow> Inl err | Inr s' \<Rightarrow> dispatch e s')"
  by (induction es arbitrary: s) (auto split: sum.splits)

lemma run_append:
  "run (es @ fs) s = (case run es s of Inl err \<Rightarrow> Inl err | Inr s' \<Rightarrow> run fs s')"
  by (induction es arbitrary: s) (auto split: sum.splits)

lemma run_forward:
  "n \<le> 17 \<Longrightarrow>
   run (replicate n Next) initial =
     Inr (initial\<lparr>currentStepIndex := int n, isAnimating := (0 < n)\<rparr>)"
proof (induction n)
  case 0
  show ?case by (simp add: initial_def)
next
  case (Suc n)
  let ?s = "initial\<lparr>currentStepIndex := int n, isAnimating := (0 < n)\<rparr>"
  have "run (replicate (Suc n) Next) initial = run (replicate n Next @ [Next]) initial"
    by (simp only: replicate_append_same [symmetric] replicate_Suc)
  also have "\<dots> = handleNext ?s"
    using Suc by (simp add: run_snoc)
  also have "\<dots> = Inr (?s\<lparr>currentStepIndex := currentStepIndex ?s + 1, isAnimating := True\<rparr>)"
    using Suc.prems by (intro handleNext_plain) auto
  finally show ?case by simp
qed

lemma apply_update_initial: "apply_update INITIAL_MEMORY store12 INITIAL_STORE = stored"
  by (simp add: apply_update_def find_cell_def INITIAL_MEMORY_def INITIAL_STORE_def
      INITIAL_CELLS_def mkCell_def store12_def stored_def)

lemma run_18:
  "run (replicate 18 Next) initial =
     Inr (initial\<lparr>currentStepIndex := 18, isAnimating := True, cell_store := stored\<rparr>)"
proof -
  have "replicate 18 Next = replicate 17 Next @ [Next]"
    by (simp add: numeral_eq_Suc replicate_append_same)
  then show ?thesis
    by (simp add: run_snoc run_forward handleNext_store apply_update_initial [symmetric])
      (simp add: initial_def)
qed

lemma run_19:
  "run (replicate 19 Next) initial =
     Inr (initial\<lparr>currentStepIndex := 19, isAnimating := True, cell_store := stored\<rparr>)"
proof -
  have "replicate 19 Next = replicate 18 Next @ [Next]"
    by (simp add: numeral_eq_Suc replicate_append_same)
  then show ?thesis
    by (simp add: run_snoc run_18 handleNext_plain)
qed

lemma cells_initial: "cells initial = INITIAL_CELLS"
  by (simp add: cells_def initial_def INITIAL_MEMORY_def INITIAL_STORE_def INITIAL_CELLS_def)

lemma content_at_stored:
  "memory s = INITIAL_MEMORY \<Longrightarrow> cell_store s = stored \<Longrightarrow> content_at s 12 = Some ''8''"
  by (simp add: content_at_def memory_map_def map_of_store_def find_cell_def INITIAL_MEMORY_def stored_def
      INITIAL_STORE_def INITIAL_CELLS_def mkCell_def)

lemma content_at_authored:
  "memory s = INITIAL_MEMORY \<Longrightarrow> cell_store s = INITIAL_STORE \<Longrightarrow> content_at s 12 = Some ''0''"
  by (simp add: content_at_def memory_map_def map_of_store_def find_cell_def INITIAL_MEMORY_def
      INITIAL_STORE_def INITIAL_CELLS_def mkCell_def)

lemma cells_stored:
  "memory s = INITIAL_MEMORY \<Longrightarrow> cell_store s = stored \<Longrightarrow>
   cells s = INITIAL_CELLS [7 := mkCell 12 ''8'' Data (Some [32080, 26524, 26684, 32013, 29992])]"
  by (simp add: cells_def INITIAL_MEMORY_def stored_def INITIAL_STORE_def INITIAL_CELLS_def)

lemma replay_before_store: "p \<le> 17 \<Longrightarrow> replay p = INITIAL_CELLS"
proof -
  assume p: "p \<le> 17"
  have "map updates_of (tl SCENARIO) = replicate 17 [] @ [[store12], []]"
    using map_memoryUpdates_SCENARIO
    by (simp add: SCENARIO_def mkStep_def updates_of_def store12_def numeral_eq_Suc)
  then have "map updates_of (take p (tl SCENARIO)) = replicate p []"
    using p by (simp add: take_map [symmetric] min_def)
  then show ?thesis
    by (simp add: replay_def)
qed

lemma stored_differs:
  "memory s = INITIAL_MEMORY \<Longrightarrow> cell_store s = stored \<Longrightarrow> cells s \<noteq> INITIAL_CELLS"
  by (simp add: cells_stored) (simp add: INITIAL_CELLS_def mkCell_def)

section \<open>Reset, retreat and the shared cell objects\<close>

text \<open>
  Claim C2 (reset restores position 0 and the seed table as authored, address 12
  holding \<open>0\<close>). The code at the input of 19 advances followed by reset: the position
  is 0 and \<open>memory\<close> is the array \<open>INITIAL_MEMORY\<close> again, but the cell at address 12
  reads \<open>8\<close>, because the advance to step 18 wrote into the object that the seed
  array itself refers to. The rendered cells differ from the authored table.
\<close>

theorem reset_keeps_store:
  "\<exists>s. run (replicate 19 Next @ [Reset]) initial = Inr s \<and>
       currentStepIndex s = 0 \<and> memory s = INITIAL_MEMORY \<and>
       content_at s 12 = Some ''8'' \<and> cells s \<noteq> INITIAL_CELLS"
proof -
  let ?s = "handleReset (initial\<lparr>currentStepIndex := 19, isAnimating := True, cell_store := stored\<rparr>)"
  have r: "run (replicate 19 Next @ [Reset]) initial = Inr ?s"
    by (simp add: run_snoc run_19)
  have m: "memory ?s = INITIAL_MEMORY" and h: "cell_store ?s = stored"
    by (simp_all add: handleReset_def)
  have "currentStepIndex ?s = 0"
    by (simp add: handleReset_def)
  with r m content_at_stored [OF m h] stored_differs [OF m h] show ?thesis
    by blast
qed

text \<open>
  Claim C1 (after any advances and retreats the memory is the seed table with the
  updates of steps \<open>1..position\<close> replayed). The code at the input of 18 advances
  followed by one retreat: the position is 17, the replay of steps \<open>1..17\<close> has
  \<open>0\<close> at address 12, and the memory shown has \<open>8\<close> there.
\<close>

theorem retreat_keeps_store:
  "\<exists>s. run (replicate 18 Next @ [Prev]) initial = Inr s \<and>
       currentStepIndex s = 17 \<and>
       content_at s 12 = Some ''8'' \<and> cells s \<noteq> replay 17 \<and>
       map content (replay 17) =
         [''LOAD 10'', ''ADD 11'', ''STORE 12'', ''HALT'', ''0000'', ''3'', ''5'', ''0'']"
proof -
  let ?s = "handlePrev (initial\<lparr>currentStepIndex := 18, isAnimating := True, cell_store := stored\<rparr>)"
  have r: "run (replicate 18 Next @ [Prev]) initial = Inr ?s"
    by (simp add: run_snoc run_18)
  have m: "memory ?s = INITIAL_MEMORY" and h: "cell_store ?s = stored"
    by (simp_all add: handlePrev_def)
  have i: "currentStepIndex ?s = 17"
    by (simp add: handlePrev_def)
  have "map content (replay 17) =
         [''LOAD 10'', ''ADD 11'', ''STORE 12'', ''HALT'', ''0000'', ''3'', ''5'', ''0'']"
    by (simp add: replay_before_store) (simp add: INITIAL_CELLS_def mkCell_def)
  with r i content_at_stored [OF m h] stored_differs [OF m h] show ?thesis
    by (simp add: replay_before_store)
qed

text \<open>
  Claim C3 (advance followed by retreat gives back the position and the memory).
  The code at position 17, reached by 17 advances: after advance and retreat the
  position is 17 again, but address 12 read \<open>0\<close> before the pair and reads
  \<open>8\<close> after it.
\<close>

theorem advance_retreat_changes_memory:
  "\<exists>s s1 s2. run (replicate 17 Next) initial = Inr s \<and> currentStepIndex s = 17 \<and>
       handleNext s = Inr s1 \<and> handlePrev s1 = s2 \<and>
       currentStepIndex s2 = 17 \<and>
       content_at s 12 = Some ''0'' \<and> content_at s2 12 = Some ''8'' \<and>
       cells s2 \<noteq> cells s"
proof -
  let ?s = "initial\<lparr>currentStepIndex := 17, isAnimating := True\<rparr>"
  let ?s1 = "initial\<lparr>currentStepIndex := 18, isAnimating := True, cell_store := stored\<rparr>"
  let ?s2 = "handlePrev ?s1"
  have r: "run (replicate 17 Next) initial = Inr ?s"
    using run_forward [of 17] by simp
  have n: "handleNext ?s = Inr ?s1"
    by (simp add: handleNext_store) (simp add: initial_def apply_update_initial)
  have m: "memory ?s = INITIAL_MEMORY" and h: "cell_store ?s = INITIAL_STORE"
    by (simp_all add: initial_def)
  have m2: "memory ?s2 = INITIAL_MEMORY" and h2: "cell_store ?s2 = stored"
    by (simp_all add: handlePrev_def)
  have i2: "currentStepIndex ?s2 = 17"
    by (simp add: handlePrev_def)
  have c: "cells ?s = INITIAL_CELLS"
    by (simp add: cells_def initial_def INITIAL_MEMORY_def INITIAL_STORE_def INITIAL_CELLS_def)
  have "cells ?s2 \<noteq> cells ?s"
    using stored_differs [OF m2 h2] c by simp
  with r n i2 content_at_authored [OF m h] content_at_stored [OF m2 h2] show ?thesis
    by (intro exI [of _ ?s] exI [of _ ?s1] exI [of _ ?s2]) simp
qed

section \<open>The walkthrough of the script\<close>

lemma content_at_after_store:
  "content_at (initial\<lparr>currentStepIndex := i, isAnimating := a, cell_store := stored\<rparr>) 12
     = Some ''8''"
  by (rule content_at_stored) (simp_all add: initial_def)

lemma nth_SCENARIO_regs:
  "pc (SCENARIO ! 0) = Some 0" "acc (SCENARIO ! 0) = Some 0" "ir (SCENARIO ! 0) = Some []"
  "acc (SCENARIO ! 6) = Some 3" "acc (SCENARIO ! 13) = Some 8"
  by (simp_all add: SCENARIO_def mkStep_def)

text \<open>
  Claim C4. Position 0 shows \<open>pc = 0\<close>, \<open>acc = 0\<close> and an empty \<open>ir\<close>; after 6 advances
  the current step has \<open>acc = 3\<close>; after 13 advances \<open>acc = 8\<close>; after 18 advances
  the cell at address 12 holds \<open>8\<close>; and after one more advance, at the last step,
  it still does.
\<close>

theorem scenario_walkthrough:
  "(\<exists>st. current_step initial = Some st \<and> pc st = Some 0 \<and> acc st = Some 0 \<and> ir st = Some []) \<and>
   (\<exists>s st. run (replicate 6 Next) initial = Inr s \<and> current_step s = Some st \<and> acc st = Some 3) \<and>
   (\<exists>s st. run (replicate 13 Next) initial = Inr s \<and> current_step s = Some st \<and> acc st = Some 8) \<and>
   (\<exists>s. run (replicate 18 Next) initial = Inr s \<and> currentStepIndex s = 18 \<and>
        content_at s 12 = Some ''8'') \<and>
   (\<exists>s. run (replicate 19 Next) initial = Inr s \<and>
        currentStepIndex s = int (length SCENARIO) - 1 \<and> content_at s 12 = Some ''8'')"
proof (intro conjI)
  show "\<exists>st. current_step initial = Some st \<and> pc st = Some 0 \<and> acc st = Some 0 \<and> ir st = Some []"
    by (simp add: current_step_def initial_def SCENARIO_at_in_range nth_SCENARIO_regs)
  show "\<exists>s st. run (replicate 6 Next) initial = Inr s \<and> current_step s = Some st \<and> acc st = Some 3"
    using run_forward [of 6]
    by (simp add: current_step_def SCENARIO_at_in_range nth_SCENARIO_regs)
  show "\<exists>s st. run (replicate 13 Next) initial = Inr s \<and> current_step s = Some st \<and> acc st = Some 8"
    using run_forward [of 13]
    by (simp add: current_step_def SCENARIO_at_in_range nth_SCENARIO_regs)
  show "\<exists>s. run (replicate 18 Next) initial = Inr s \<and> currentStepIndex s = 18 \<and>
        content_at s 12 = Some ''8''"
    by (simp add: run_18 content_at_after_store)
  show "\<exists>s. run (replicate 19 Next) initial = Inr s \<and>
        currentStepIndex s = int (length SCENARIO) - 1 \<and> content_at s 12 = Some ''8''"
    by (simp add: run_19 content_at_after_store length_SCENARIO)
qed

section \<open>The ends of the script\<close>

text \<open>
  Claim C6. At the last step, \<open>handleNext\<close> returns normally and leaves the whole
  state as it was: the position, the memory array, the store and the animation flag.
\<close>

theorem handleNext_at_end:
  "currentStepIndex s = int (length SCENARIO) - 1 \<Longrightarrow> handleNext s = Inr s"
  by (simp add: handleNext_def)

text \<open>The state after 19 advances is at the last step, and a further advance keeps it.\<close>

theorem handleNext_at_end_witness:
  "\<exists>s. run (replicate 19 Next) initial = Inr s \<and>
       currentStepIndex s = int (length SCENARIO) - 1 \<and> handleNext s = Inr s"
proof -
  let ?s = "initial\<lparr>currentStepIndex := 19, isAnimating := True, cell_store := stored\<rparr>"
  have i: "currentStepIndex ?s = int (length SCENARIO) - 1"
    by (simp add: length_SCENARIO)
  from handleNext_at_end [OF i] i run_19 show ?thesis
    by blast
qed

text \<open>
  Claim C7. At position 0, \<open>handlePrev\<close> leaves the whole state as it was.
\<close>

theorem handlePrev_at_start:
  "currentStepIndex s = 0 \<Longrightarrow> handlePrev s = s"
  by (simp add: handlePrev_def)

text \<open>The first render is at position 0, and retreating from it changes nothing.\<close>

theorem handlePrev_at_start_witness:
  "currentStepIndex initial = 0 \<and> handlePrev initial = initial"
proof -
  have i: "currentStepIndex initial = 0"
    by (simp add: initial_def)
  from handlePrev_at_start [OF i] i show ?thesis
    by simp
qed

section \<open>Advancing\<close>

lemma find_cell_content_update:
  "find_cell (h(r := (h r)\<lparr>content := v\<rparr>)) mem a = find_cell h mem a"
proof -
  have "(\<lambda>x. address ((h(r := (h r)\<lparr>content := v\<rparr>)) x) = a) = (\<lambda>x. address (h x) = a)"
    by (auto simp: fun_eq_iff)
  then show ?thesis
    by (simp add: find_cell_def)
qed

lemma find_cell_address:
  "find_cell h mem a = Some r \<Longrightarrow> address (h r) = a"
  by (auto simp: find_cell_def find_Some_iff)

lemma find_cell_apply_update:
  "find_cell (apply_update mem u h) mem a = find_cell h mem a"
  by (simp add: apply_update_def find_cell_content_update split: option.split)

lemma map_of_store_apply_update:
  "map_of_store mem (apply_update mem u h) = overwrite u (map_of_store mem h)"
proof (cases "find_cell h mem (upd_address u)")
  case None
  then show ?thesis
    by (simp add: apply_update_def overwrite_def map_of_store_def)
next
  case (Some r)
  let ?h = "h(r := (h r)\<lparr>content := upd_value u\<rparr>)"
  have upd: "apply_update mem u h = ?h"
    using Some by (simp add: apply_update_def)
  have "map_of_store mem ?h a = overwrite u (map_of_store mem h) a" for a
  proof (cases "a = upd_address u")
    case True
    then show ?thesis
      using Some by (simp add: map_of_store_def overwrite_def find_cell_content_update)
  next
    case False
    show ?thesis
    proof (cases "find_cell h mem a")
      case None
      then show ?thesis
        using False Some by (simp add: map_of_store_def overwrite_def find_cell_content_update)
    next
      case (Some r')
      then have "address (h r') = a"
        by (rule find_cell_address)
      moreover have "address (h r) = upd_address u"
        using \<open>find_cell h mem (upd_address u) = Some r\<close> by (rule find_cell_address)
      ultimately have "r' \<noteq> r"
        using False by auto
      then show ?thesis
        using False Some \<open>find_cell h mem (upd_address u) = Some r\<close>
        by (simp add: map_of_store_def overwrite_def find_cell_content_update)
    qed
  qed
  then show ?thesis
    unfolding upd by (simp add: fun_eq_iff)
qed

lemma map_of_store_fold:
  "map_of_store mem (fold (apply_update mem) us h) = fold overwrite us (map_of_store mem h)"
  by (induction us arbitrary: h) (simp_all add: map_of_store_apply_update)

lemma memory_map_eq: "memory_map s = map_of_store (memory s) (cell_store s)"
  by (simp add: memory_map_def)

lemma address_apply_update: "address (apply_update mem u h r) = address (h r)"
  by (simp add: apply_update_def split: option.split)

lemma find_cell_member: "find_cell h mem a = Some r \<Longrightarrow> r \<in> set mem"
  by (auto simp: find_cell_def find_Some_iff)

lemma store_write_apply_update:
  assumes "distinct (map address (map h mem))"
  shows "map (apply_update mem u h) mem = store_write u (map h mem)"
proof (cases "find_cell h mem (upd_address u)")
  case None
  then have "\<forall>r\<in>set mem. address (h r) \<noteq> upd_address u"
    by (simp add: find_cell_def find_None_iff)
  with None show ?thesis
    by (simp add: apply_update_def store_write_def)
next
  case (Some r)
  then have a: "address (h r) = upd_address u"
    by (rule find_cell_address)
  from Some have rin: "r \<in> set mem"
    by (rule find_cell_member)
  from assms have inj: "inj_on (\<lambda>x. address (h x)) (set mem)"
    by (simp add: distinct_map comp_def)
  have only: "address (h x) = upd_address u \<longleftrightarrow> x = r" if "x \<in> set mem" for x
    using inj rin a that by (auto simp: inj_on_def)
  show ?thesis
    using Some only by (simp add: apply_update_def store_write_def)
qed

lemma store_write_fold:
  assumes "distinct (map address (map h mem))"
  shows "map (fold (apply_update mem) us h) mem = fold store_write us (map h mem)"
  using assms
proof (induction us arbitrary: h)
  case Nil
  show ?case by simp
next
  case (Cons u us)
  have eq: "map address (map (apply_update mem u h) mem) = map address (map h mem)"
    by (simp add: address_apply_update)
  have "distinct (map address (map (apply_update mem u h) mem))"
    unfolding eq using Cons.prems .
  from Cons.IH [OF this] show ?case
    by (simp add: store_write_apply_update [OF Cons.prems])
qed

text \<open>
  Claim C5. From a state of the data model (\<open>0 \<le> position\<close>) that is before the last
  step, \<open>handleNext\<close> returns normally and the position has grown by exactly one.
  The memory mapping is the old one with the updates of the step at the new position
  written over it in list order: each update replaces the content of the cell found at
  its address and does nothing when no cell has that address. The same is said of what
  is rendered, without any lookup: where addresses are the unique key of the cells, the
  list of cells after the call is the list before it with each update, in list order,
  written into the content of the cell that has the update's address. A step without
  updates leaves the memory as it was.
\<close>

theorem handleNext_advances:
  assumes "0 \<le> currentStepIndex s" and "currentStepIndex s < int (length SCENARIO) - 1"
  shows "\<exists>s' st. handleNext s = Inr s' \<and>
           currentStepIndex s' = currentStepIndex s + 1 \<and>
           current_step s' = Some st \<and>
           memory_map s' = fold overwrite (updates_of st) (memory_map s) \<and>
           (distinct (map address (cells s)) \<longrightarrow>
              cells s' = fold store_write (updates_of st) (cells s))"
proof -
  let ?j = "currentStepIndex s + 1"
  let ?st = "SCENARIO ! nat ?j"
  have at: "SCENARIO_at ?j = Some ?st"
    using assms by (simp add: SCENARIO_at_def)
  show ?thesis
  proof (cases "memoryUpdates ?st")
    case None
    then show ?thesis
      using assms at
      by (simp add: handleNext_def Let_def current_step_def updates_of_def memory_map_eq
          cells_def)
  next
    case (Some us)
    let ?s' = "s\<lparr>memory := memory s,
                  cell_store := fold (apply_update (memory s)) us (cell_store s),
                  currentStepIndex := ?j, isAnimating := True\<rparr>"
    have n: "handleNext s = Inr ?s'"
      using assms at Some by (simp add: handleNext_def Let_def)
    have u: "updates_of ?st = us"
      using Some by (simp add: updates_of_def)
    have m: "memory_map ?s' = fold overwrite us (memory_map s)"
      by (simp add: memory_map_eq map_of_store_fold)
    have c: "cells ?s' = fold store_write us (cells s)"
      if "distinct (map address (cells s))"
      using that store_write_fold [of "cell_store s" "memory s" us]
      by (simp add: cells_def)
    from n at u m c show ?thesis
      by (intro exI [of _ ?s'] exI [of _ ?st]) (simp add: current_step_def)
  qed
qed

text \<open>
  At position 17, reached by 17 advances, the step reached is step 18, which carries
  the one update of the script: the cell at address 12 shows \<open>0\<close> before the call and
  \<open>8\<close> after it, and every other cell shows what it showed.
\<close>

theorem handleNext_advances_witness:
  "\<exists>s s'. run (replicate 17 Next) initial = Inr s \<and>
     0 \<le> currentStepIndex s \<and> currentStepIndex s < int (length SCENARIO) - 1 \<and>
     distinct (map address (cells s)) \<and>
     map content (cells s) =
       [''LOAD 10'', ''ADD 11'', ''STORE 12'', ''HALT'', ''0000'', ''3'', ''5'', ''0''] \<and>
     handleNext s = Inr s' \<and> currentStepIndex s' = 18 \<and>
     current_step s' = Some (SCENARIO ! 18) \<and> updates_of (SCENARIO ! 18) = [store12] \<and>
     memory_map s' = fold overwrite [store12] (memory_map s) \<and>
     cells s' = fold store_write [store12] (cells s) \<and>
     map content (cells s') =
       [''LOAD 10'', ''ADD 11'', ''STORE 12'', ''HALT'', ''0000'', ''3'', ''5'', ''8'']"
proof -
  let ?s = "initial\<lparr>currentStepIndex := 17, isAnimating := True\<rparr>"
  have r: "run (replicate 17 Next) initial = Inr ?s"
    using run_forward [of 17] by simp
  have a: "0 \<le> currentStepIndex ?s" and b: "currentStepIndex ?s < int (length SCENARIO) - 1"
    by (simp_all add: length_SCENARIO)
  have cs: "cells ?s = INITIAL_CELLS"
    by (simp add: cells_def initial_def INITIAL_MEMORY_def INITIAL_STORE_def INITIAL_CELLS_def)
  have d: "distinct (map address (cells ?s))"
    unfolding cs by (simp add: INITIAL_CELLS_def mkCell_def)
  have c0: "map content (cells ?s) =
       [''LOAD 10'', ''ADD 11'', ''STORE 12'', ''HALT'', ''0000'', ''3'', ''5'', ''0'']"
    unfolding cs by (simp add: INITIAL_CELLS_def mkCell_def)
  from handleNext_advances [OF a b] obtain s' st where
    n: "handleNext ?s = Inr s'" and i: "currentStepIndex s' = currentStepIndex ?s + 1"
    and c: "current_step s' = Some st"
    and m: "memory_map s' = fold overwrite (updates_of st) (memory_map ?s)"
    and w: "distinct (map address (cells ?s)) \<longrightarrow>
              cells s' = fold store_write (updates_of st) (cells ?s)"
    by blast
  from i have i18: "currentStepIndex s' = 18" by simp
  from c i18 have at: "SCENARIO_at 18 = Some st" by (simp add: current_step_def)
  from SCENARIO_at_Some [OF at] have st: "st = SCENARIO ! 18" by simp
  from memoryUpdates_at [OF at] have us: "updates_of st = [store12]"
    by (simp add: updates_of_def)
  from w d us have cw: "cells s' = fold store_write [store12] (cells ?s)"
    by simp
  then have c1: "map content (cells s') =
       [''LOAD 10'', ''ADD 11'', ''STORE 12'', ''HALT'', ''0000'', ''3'', ''5'', ''8'']"
    unfolding cs by (simp add: store_write_def store12_def INITIAL_CELLS_def mkCell_def)
  from r a b d c0 n i18 c m us cw c1 st show ?thesis
    by (intro exI [of _ ?s] exI [of _ s']) simp
qed

section \<open>Reachable states\<close>

lemma find_cell_fold:
  "find_cell (fold (apply_update mem) us h) mem a = find_cell h mem a"
  by (induction us arbitrary: h) (simp_all add: find_cell_apply_update)

lemma find_cell_found:
  "find_cell h mem a \<noteq> None \<longleftrightarrow> a \<in> set (map (\<lambda>r. address (h r)) mem)"
  by (auto simp: find_cell_def find_None_iff)

lemma handleNext_total:
  assumes "0 \<le> currentStepIndex s"
  shows "\<exists>s'. handleNext s = Inr s'"
proof (cases "currentStepIndex s < 19")
  case True
  then have "SCENARIO_at (currentStepIndex s + 1) = Some (SCENARIO ! nat (currentStepIndex s + 1))"
    using assms by (intro SCENARIO_at_in_range) auto
  then show ?thesis
    by (simp add: handleNext_def Let_def)
next
  case False
  then show ?thesis
    by (simp add: handleNext_last)
qed

lemma reachable_invariant:
  "reachable s \<Longrightarrow>
     0 \<le> currentStepIndex s \<and> currentStepIndex s < 20 \<and> memory s = INITIAL_MEMORY \<and>
     map (\<lambda>r. address (cell_store s r)) INITIAL_MEMORY = map address INITIAL_CELLS"
proof (induction rule: reachable.induct)
  case reachable_initial
  show ?case
    by (simp add: initial_def INITIAL_MEMORY_def INITIAL_STORE_def INITIAL_CELLS_def)
next
  case (reachable_step s e s')
  then have inv: "0 \<le> currentStepIndex s" "currentStepIndex s < 20"
      "memory s = INITIAL_MEMORY"
      "map (\<lambda>r. address (cell_store s r)) INITIAL_MEMORY = map address INITIAL_CELLS"
    by simp_all
  show ?case
  proof (cases e)
    case Next
    with reachable_step.hyps have n: "handleNext s = Inr s'" by simp
    consider "currentStepIndex s = 17" | "currentStepIndex s = 19"
      | "currentStepIndex s < 19" "currentStepIndex s \<noteq> 17"
      using inv by linarith
    then show ?thesis
    proof cases
      case 1
      from n handleNext_store [OF 1] inv show ?thesis
        by (auto simp: address_apply_update)
    next
      case 2
      with n inv show ?thesis
        by (simp add: handleNext_last)
    next
      case 3
      from n handleNext_plain [OF inv(1) 3] inv 3 show ?thesis
        by auto
    qed
  next
    case Prev
    with reachable_step.hyps have "s' = handlePrev s" by simp
    with inv show ?thesis
      by (auto simp: handlePrev_def Let_def)
  next
    case Reset
    with reachable_step.hyps have "s' = handleReset s" by simp
    with inv show ?thesis
      by (simp add: handleReset_def)
  next
    case Timeout
    with reachable_step.hyps have "s' = animationTimeout s" by simp
    with inv show ?thesis
      by (simp add: animationTimeout_def)
  qed
qed

lemma run_reachable:
  "reachable s \<Longrightarrow> run es s = Inr s' \<Longrightarrow> reachable s'"
proof (induction es arbitrary: s)
  case Nil
  then show ?case by simp
next
  case (Cons e es)
  then show ?case
    by (auto split: sum.splits intro: reachable_step)
qed

lemma dispatch_preserves_range:
  assumes "0 \<le> currentStepIndex s" and "currentStepIndex s < int (length SCENARIO)"
    and "dispatch e s = Inr s'"
  shows "0 \<le> currentStepIndex s' \<and> currentStepIndex s' < int (length SCENARIO)"
proof (cases e)
  case Next
  with assms(3) have n: "handleNext s = Inr s'" by simp
  show ?thesis
  proof (cases "currentStepIndex s < int (length SCENARIO) - 1")
    case True
    then have "SCENARIO_at (currentStepIndex s + 1) = Some (SCENARIO ! nat (currentStepIndex s + 1))"
      using assms(1) by (simp add: SCENARIO_at_def)
    with n True assms(1) show ?thesis
      by (auto simp: handleNext_def Let_def split: option.splits)
  next
    case False
    with n assms(1,2) show ?thesis
      by (simp add: handleNext_def)
  qed
next
  case Prev
  with assms show ?thesis
    by (auto simp: handlePrev_def Let_def)
next
  case Reset
  with assms show ?thesis
    by (auto simp: handleReset_def length_SCENARIO)
next
  case Timeout
  with assms show ?thesis
    by (auto simp: animationTimeout_def)
qed

text \<open>
  Claim C8. The position starts at 0; every handler that is run in a state with
  \<open>0 \<le> position < length SCENARIO\<close> ends in such a state; hence every reachable state
  has its position in that range, \<open>SCENARIO[currentStepIndex]\<close> is a step of the script
  there, and no handler throws there.
\<close>

theorem position_in_range:
  "currentStepIndex initial = 0 \<and>
   (\<forall>s e s'. 0 \<le> currentStepIndex s \<longrightarrow> currentStepIndex s < int (length SCENARIO) \<longrightarrow>
       dispatch e s = Inr s' \<longrightarrow>
       0 \<le> currentStepIndex s' \<and> currentStepIndex s' < int (length SCENARIO)) \<and>
   (\<forall>s. reachable s \<longrightarrow>
       0 \<le> currentStepIndex s \<and> currentStepIndex s < int (length SCENARIO) \<and>
       (\<exists>st. current_step s = Some st) \<and>
       (\<forall>e. \<exists>s'. dispatch e s = Inr s'))"
proof (intro conjI allI impI)
  show "currentStepIndex initial = 0"
    by (simp add: initial_def)
next
  fix s e s'
  assume "0 \<le> currentStepIndex s" and "currentStepIndex s < int (length SCENARIO)"
    and "dispatch e s = Inr s'"
  then have r: "0 \<le> currentStepIndex s' \<and> currentStepIndex s' < int (length SCENARIO)"
    by (rule dispatch_preserves_range)
  from r show "0 \<le> currentStepIndex s'" ..
  from r show "currentStepIndex s' < int (length SCENARIO)" ..
next
  fix s
  assume "reachable s"
  from reachable_invariant [OF this]
  have r: "0 \<le> currentStepIndex s" "currentStepIndex s < 20" by simp_all
  from r show "0 \<le> currentStepIndex s" by simp
  from r show "currentStepIndex s < int (length SCENARIO)"
    by (simp add: length_SCENARIO)
  from r show "\<exists>st. current_step s = Some st"
    by (simp add: current_step_def SCENARIO_at_in_range)
  fix e
  show "\<exists>s'. dispatch e s = Inr s'"
    using handleNext_total [OF r(1)] by (cases e) simp_all
qed

text \<open>
  A state reached through advances, retreats and a reset is in range, and so is the
  state that a handler makes of it.
\<close>

theorem position_in_range_witness:
  "\<exists>s. run (replicate 19 Next @ [Prev, Prev, Reset, Next]) initial = Inr s \<and> reachable s \<and>
       currentStepIndex s = 1 \<and>
       0 \<le> currentStepIndex s \<and> currentStepIndex s < int (length SCENARIO) \<and>
       (\<exists>st. current_step s = Some st) \<and> (\<forall>e. \<exists>s'. dispatch e s = Inr s')"
proof -
  let ?s19 = "initial\<lparr>currentStepIndex := 19, isAnimating := True, cell_store := stored\<rparr>"
  let ?s0 = "handleReset (handlePrev (handlePrev ?s19))"
  have i0: "currentStepIndex ?s0 = 0"
    by (simp add: handleReset_def)
  have "handleNext ?s0 = Inr (?s0\<lparr>currentStepIndex := currentStepIndex ?s0 + 1, isAnimating := True\<rparr>)"
    by (rule handleNext_plain) (simp_all add: i0)
  then obtain s where n: "handleNext ?s0 = Inr s" and i: "currentStepIndex s = 1"
    by (simp add: i0)
  have r: "run (replicate 19 Next @ [Prev, Prev, Reset, Next]) initial = Inr s"
    by (simp add: run_append run_19 n)
  have reach: "reachable s"
    using run_reachable [OF reachable_initial r] .
  from position_in_range reach
  have "0 \<le> currentStepIndex s \<and> currentStepIndex s < int (length SCENARIO) \<and>
        (\<exists>st. current_step s = Some st) \<and> (\<forall>e. \<exists>s'. dispatch e s = Inr s')"
    by blast
  with r i reach show ?thesis
    by blast
qed

section \<open>The updates of the script and the seed table\<close>

lemma updates_of_SCENARIO:
  assumes "st \<in> set SCENARIO"
  shows "updates_of st = [] \<or> updates_of st = [store12]"
proof -
  from assms have "memoryUpdates st \<in> set (map memoryUpdates SCENARIO)"
    by simp
  then have "memoryUpdates st = None \<or> memoryUpdates st = Some [store12]"
    unfolding map_memoryUpdates_SCENARIO by auto
  then show ?thesis
    by (auto simp: updates_of_def)
qed

lemma store12_in_seed: "upd_address store12 \<in> address ` set INITIAL_CELLS"
  by (simp add: store12_def INITIAL_CELLS_def mkCell_def)

text \<open>
  Claim C10. Every address that an update of a step of the script names is the address
  of a cell of the seed table; and in every reachable state, when \<open>handleNext\<close> comes
  to an update of the next step (after the updates listed before it), the lookup by
  address finds a cell, so the branch where \<open>cell\<close> is undefined is not taken.
\<close>

theorem updates_hit_seed_cells:
  "(\<forall>st \<in> set SCENARIO. \<forall>u \<in> set (updates_of st).
       upd_address u \<in> address ` set INITIAL_CELLS) \<and>
   (\<forall>s st us u vs. reachable s \<longrightarrow> SCENARIO_at (currentStepIndex s + 1) = Some st \<longrightarrow>
       updates_of st = us @ u # vs \<longrightarrow>
       find_cell (fold (apply_update (memory s)) us (cell_store s)) (memory s) (upd_address u)
         \<noteq> None)"
proof (intro conjI ballI allI impI)
  fix st u
  assume "st \<in> set SCENARIO" and u: "u \<in> set (updates_of st)"
  from updates_of_SCENARIO [OF this(1)] u have "u = store12"
    by auto
  then show "upd_address u \<in> address ` set INITIAL_CELLS"
    by (simp add: store12_in_seed)
next
  fix s st us u vs
  assume r: "reachable s" and at: "SCENARIO_at (currentStepIndex s + 1) = Some st"
    and split: "updates_of st = us @ u # vs"
  from SCENARIO_at_Some [OF at] have "nat (currentStepIndex s + 1) < length SCENARIO"
    and "st = SCENARIO ! nat (currentStepIndex s + 1)"
    by (auto simp: length_SCENARIO)
  then have "st \<in> set SCENARIO"
    by simp
  from updates_of_SCENARIO [OF this] split have "u = store12"
    by (auto simp: append_eq_Cons_conv Cons_eq_append_conv)
  from reachable_invariant [OF r]
  have m: "memory s = INITIAL_MEMORY"
    and a: "map (\<lambda>r. address (cell_store s r)) INITIAL_MEMORY = map address INITIAL_CELLS"
    by simp_all
  have "upd_address u \<in> set (map address INITIAL_CELLS)"
    using store12_in_seed \<open>u = store12\<close> by simp
  then have "upd_address u \<in> set (map (\<lambda>r. address (cell_store s r)) (memory s))"
    by (simp only: m a)
  then have "find_cell (cell_store s) (memory s) (upd_address u) \<noteq> None"
    by (rule iffD2 [OF find_cell_found])
  then show "find_cell (fold (apply_update (memory s)) us (cell_store s)) (memory s)
      (upd_address u) \<noteq> None"
    by (simp add: find_cell_fold)
qed

text \<open>
  Step 18 and its update of address 12, in the state reached by 17 advances.
\<close>

theorem updates_hit_seed_cells_witness:
  "\<exists>s. run (replicate 17 Next) initial = Inr s \<and> reachable s \<and>
       SCENARIO ! 18 \<in> set SCENARIO \<and>
       SCENARIO_at (currentStepIndex s + 1) = Some (SCENARIO ! 18) \<and>
       updates_of (SCENARIO ! 18) = [] @ store12 # [] \<and>
       store12 \<in> set (updates_of (SCENARIO ! 18)) \<and>
       upd_address store12 = 12 \<and>
       12 \<in> address ` set INITIAL_CELLS \<and>
       find_cell (cell_store s) (memory s) 12 \<noteq> None"
proof -
  let ?s = "initial\<lparr>currentStepIndex := 17, isAnimating := True\<rparr>"
  let ?st = "SCENARIO ! 18"
  have r: "run (replicate 17 Next) initial = Inr ?s"
    using run_forward [of 17] by simp
  have reach: "reachable ?s"
    using run_reachable [OF reachable_initial r] .
  have mem: "?st \<in> set SCENARIO"
    by (simp add: length_SCENARIO)
  have at: "SCENARIO_at (currentStepIndex ?s + 1) = Some ?st"
    by (simp add: SCENARIO_at_in_range)
  have us: "updates_of ?st = [] @ store12 # []"
    using memoryUpdates_nth [of 18] by (simp add: updates_of_def)
  then have u: "store12 \<in> set (updates_of ?st)"
    by simp
  have a: "upd_address store12 = 12"
    by (simp add: store12_def)
  from updates_hit_seed_cells mem u
  have one: "upd_address store12 \<in> address ` set INITIAL_CELLS"
    by blast
  from updates_hit_seed_cells reach at us
  have "find_cell (fold (apply_update (memory ?s)) [] (cell_store ?s)) (memory ?s)
          (upd_address store12) \<noteq> None"
    by blast
  with r reach mem at us u a one show ?thesis
    by (intro exI [of _ ?s]) simp
qed

section \<open>Highlighting of memory cells\<close>

lemma String_nat_digits: "set (String_nat n) \<subseteq> set ''0123456789''"
proof (induction n rule: String_nat.induct)
  case (1 n)
  have d: "k < 10 \<Longrightarrow> ''0123456789'' ! k \<in> set ''0123456789''" for k
    by (rule nth_mem) simp
  show ?case
  proof (cases "n < 10")
    case True
    with d [of n] show ?thesis
      by (subst String_nat.simps) simp
  next
    case False
    have "n mod 10 < 10" by simp
    from d [OF this] 1 False show ?thesis
      by (subst String_nat.simps) simp
  qed
qed

lemma undefined_not_String_nat: "''undefined'' \<noteq> String_nat n"
proof
  assume "''undefined'' = String_nat n"
  then have "CHR ''u'' \<in> set (String_nat n)"
    by (metis list.set_intros(1))
  with String_nat_digits [of n] show False
    by auto
qed

lemma some_update_iff:
  "(case memoryUpdates step of
      None \<Rightarrow> False
    | Some us \<Rightarrow> list_ex (\<lambda>u. upd_address u = address cell) us)
   \<longleftrightarrow> address cell \<in> upd_address ` set (updates_of step)"
  by (force simp: updates_of_def list_ex_iff split: option.splits)

lemma highlighted_with_Memory:
  assumes "isActive step ''Memory''"
  shows "highlighted step cell \<longleftrightarrow> spec_targeting step cell"
proof (cases "busActive step")
  case None
  then show ?thesis
    using assms undefined_not_String_nat [of "address cell"]
    by (simp add: highlighted_def isTarget_def isAddressed_def spec_targeting_def
        some_update_iff)
next
  case (Some b)
  then show ?thesis
    using assms
    unfolding highlighted_def isTarget_def isAddressed_def spec_targeting_def some_update_iff
    by auto
qed

lemma highlighted_without_Memory:
  assumes "\<not> isActive step ''Memory''"
  shows "highlighted step cell \<longleftrightarrow>
     isActive step ''AddressBus'' \<and>
     (\<exists>b. busActive step = Some b \<and> bus_value b = String_nat (address cell))"
proof (cases "busActive step")
  case None
  then show ?thesis
    using assms undefined_not_String_nat [of "address cell"]
    by (simp add: highlighted_def isTarget_def isAddressed_def)
next
  case (Some b)
  then show ?thesis
    using assms by (simp add: highlighted_def isTarget_def isAddressed_def)
qed

text \<open>
  \<open>isTarget\<close> is computed under \<open>isActive('Memory')\<close>. On the twenty steps of the script
  that condition makes no difference: a step without Memory among its active components
  has no address bus, no update, and no transfer from PC, CU or Memory or to Memory.
\<close>

lemma script_steps_without_Memory:
  "list_all (\<lambda>st. isActive st ''Memory'' \<or>
      (\<not> isActive st ''AddressBus'' \<and> updates_of st = [] \<and>
       (case busActive st of
          None \<Rightarrow> True
        | Some b \<Rightarrow> bus_from b \<noteq> ''PC'' \<and> bus_from b \<noteq> ''CU'' \<and> bus_from b \<noteq> ''Memory'' \<and>
            bus_to b \<noteq> ''Memory''))) SCENARIO"
  by (simp add: SCENARIO_def mkStep_def mkBus_def isActive_def updates_of_def)

lemma highlighted_on_script:
  assumes "st \<in> set SCENARIO"
  shows "highlighted st cell \<longleftrightarrow> spec_targeting st cell"
proof (cases "isActive st ''Memory''")
  case True
  then show ?thesis
    by (rule highlighted_with_Memory)
next
  case False
  with script_steps_without_Memory assms
  have g: "\<not> isActive st ''AddressBus''" "updates_of st = []"
     "case busActive st of None \<Rightarrow> True
      | Some b \<Rightarrow> bus_from b \<noteq> ''PC'' \<and> bus_from b \<noteq> ''CU'' \<and> bus_from b \<noteq> ''Memory'' \<and>
          bus_to b \<noteq> ''Memory''"
    by (auto simp: list_all_iff)
  with False show ?thesis
    by (auto simp: highlighted_without_Memory spec_targeting_def split: option.splits)
qed

lemma current_step_in_script:
  assumes "current_step s = Some st"
  shows "st \<in> set SCENARIO"
proof -
  from assms have "SCENARIO_at (currentStepIndex s) = Some st"
    by (simp add: current_step_def)
  from SCENARIO_at_Some [OF this]
  have "nat (currentStepIndex s) < length SCENARIO" and "st = SCENARIO ! nat (currentStepIndex s)"
    by (auto simp: length_SCENARIO)
  then show ?thesis
    by simp
qed

text \<open>
  Claim C9. The component computes the two flags for \<open>step = SCENARIO[currentStepIndex]\<close>
  and each cell it renders. For every step of the script and every memory cell, and so
  for the current step of every reachable state, the cell is highlighted
  (\<open>isAddressed || isTarget\<close>) exactly when the transfer's value is the cell's address
  string and the transfer comes from PC or CU or the address bus is active, or Memory
  is an endpoint of the transfer and its value is the cell's content, or the cell's
  address is among the step's updates.
\<close>

theorem highlighting_rule:
  "(\<forall>st \<in> set SCENARIO. \<forall>cell. highlighted st cell \<longleftrightarrow> spec_targeting st cell) \<and>
   (\<forall>s st cell. reachable s \<longrightarrow> current_step s = Some st \<longrightarrow>
      (highlighted st cell \<longleftrightarrow> spec_targeting st cell))"
  using highlighted_on_script current_step_in_script by blast

text \<open>
  Step 5 sends address 10 from CU: the cell at address 10 is highlighted and the cell
  at address 0 is not. After 18 advances the current step is step 18, which writes
  address 12: the cell at address 12 is highlighted and the cell at address 0 is not.
\<close>

theorem highlighting_rule_witness:
  "SCENARIO ! 5 \<in> set SCENARIO \<and>
   highlighted (SCENARIO ! 5) (INITIAL_CELLS ! 5) \<and>
   spec_targeting (SCENARIO ! 5) (INITIAL_CELLS ! 5) \<and>
   \<not> highlighted (SCENARIO ! 5) (INITIAL_CELLS ! 0) \<and>
   \<not> spec_targeting (SCENARIO ! 5) (INITIAL_CELLS ! 0) \<and>
   (\<exists>s st. run (replicate 18 Next) initial = Inr s \<and> reachable s \<and>
      current_step s = Some st \<and> st = SCENARIO ! 18 \<and>
      highlighted st (cells s ! 7) \<and> spec_targeting st (cells s ! 7) \<and>
      \<not> highlighted st (cells s ! 0) \<and> \<not> spec_targeting st (cells s ! 0))"
proof -
  let ?s = "initial\<lparr>currentStepIndex := 18, isAnimating := True, cell_store := stored\<rparr>"
  let ?st = "SCENARIO ! 18"
  have m5: "SCENARIO ! 5 \<in> set SCENARIO"
    by (simp add: length_SCENARIO)
  have h5: "highlighted (SCENARIO ! 5) (INITIAL_CELLS ! 5)"
    by (simp add: highlighted_def isAddressed_def isTarget_def isActive_def SCENARIO_def
        mkStep_def mkBus_def INITIAL_CELLS_def mkCell_def String_nat.simps)
  have n5: "\<not> spec_targeting (SCENARIO ! 5) (INITIAL_CELLS ! 0)"
    by (simp add: spec_targeting_def isActive_def updates_of_def SCENARIO_def
        mkStep_def mkBus_def INITIAL_CELLS_def mkCell_def String_nat.simps)
  have r: "run (replicate 18 Next) initial = Inr ?s"
    by (rule run_18)
  have reach: "reachable ?s"
    using run_reachable [OF reachable_initial r] .
  have c: "current_step ?s = Some ?st"
    by (simp add: current_step_def SCENARIO_at_in_range)
  have m: "memory ?s = INITIAL_MEMORY" and h: "cell_store ?s = stored"
    by (simp_all add: initial_def)
  have c7: "cells ?s ! 7 = mkCell 12 ''8'' Data (Some [32080, 26524, 26684, 32013, 29992])"
    and c0: "cells ?s ! 0 = mkCell 0 ''LOAD 10'' Instruction (Some [12487, 12540, 12479, 35501, 36796])"
    by (simp_all add: cells_stored [OF m h] INITIAL_CELLS_def)
  have h18: "highlighted ?st (cells ?s ! 7)"
    unfolding c7
    by (simp add: highlighted_def isAddressed_def isTarget_def isActive_def SCENARIO_def
        mkStep_def mkBus_def mkCell_def)
  have n18: "\<not> spec_targeting ?st (cells ?s ! 0)"
    unfolding c0
    by (simp add: spec_targeting_def isActive_def updates_of_def SCENARIO_def
        mkStep_def mkBus_def mkCell_def String_nat.simps)
  from highlighting_rule m5 h5 n5
  have one: "spec_targeting (SCENARIO ! 5) (INITIAL_CELLS ! 5)"
    "\<not> highlighted (SCENARIO ! 5) (INITIAL_CELLS ! 0)"
    by blast+
  from highlighting_rule reach c h18 n18
  have two: "spec_targeting ?st (cells ?s ! 7)" "\<not> highlighted ?st (cells ?s ! 0)"
    by blast+
  from m5 h5 n5 one r reach c h18 n18 two show ?thesis
    by blast
qed

end
